theory Spec2Isabelle
  imports Main "HOL-Library.Word"
begin

unbundle bit_operations_syntax

section \<open>The bit-packed integer set of \<^verbatim>\<open>intset.go\<close>\<close>

text \<open>
  The package keeps a set of small non-negative integers in a slice of machine words
  (\<^verbatim>\<open>words []uint\<close>): bit \<open>b\<close> of word \<open>w\<close> stands for the integer \<open>w * N + b\<close>.

  Modelling decisions.
  \<^item> \<^verbatim>\<open>uint\<close> is the 64-bit word of a 64-bit platform. The constant \<^verbatim>\<open>N\<close> is computed
    by the expression of the source and turns out to be 64.
  \<^item> \<^verbatim>\<open>int\<close> values (elements, loop counters, the numbers printed) are mathematical
    integers. The source never adds or multiplies them beyond \<open>i * N + j\<close> with
    \<open>i\<close> a slice index, which stays far below \<open>2 ^ 63\<close> for any slice that fits into
    memory, so no wrap-around is reachable.
  \<^item> A slice is the list of its elements; the \<^verbatim>\<open>nil\<close> slice is the empty list (Go's
    \<^verbatim>\<open>len\<close>, \<^verbatim>\<open>range\<close> and \<^verbatim>\<open>append\<close> do not tell them apart). The last section
    models slices as views of arrays in a heap, for the claim about \<^verbatim>\<open>Copy\<close>.
  \<^item> An index outside a slice makes the Go runtime panic. Where the index is computed
    from the argument \<open>x\<close> (\<^verbatim>\<open>Has\<close>, \<^verbatim>\<open>Add\<close>, \<^verbatim>\<open>Remove\<close>) the model indexes through
    \<open>index\<close> and \<open>assign\<close>, which return the panic as a value; a negative \<open>x\<close> can
    reach it.
\<close>

subsection \<open>Words, integers, panics\<close>

type_synonym uint = "64 word"

text \<open>\<^verbatim>\<open>const N = 32 << (^uint(0) >> 63)\<close>\<close>

definition N :: nat where
  "N = push_bit (unat (drop_bit 63 (NOT 0 :: uint))) 32"

text \<open>Go's \<^verbatim>\<open>/\<close> and \<^verbatim>\<open>%\<close> on \<^verbatim>\<open>int\<close> truncate towards zero.\<close>

definition go_quot :: "int \<Rightarrow> int \<Rightarrow> int" where
  "go_quot a b = sgn a * sgn b * (\<bar>a\<bar> div \<bar>b\<bar>)"

definition go_rem :: "int \<Rightarrow> int \<Rightarrow> int" where
  "go_rem a b = a - b * go_quot a b"

datatype panic = IndexOutOfRange

text \<open>\<^verbatim>\<open>xs[i]\<close> as an expression and \<^verbatim>\<open>xs[i] = v\<close> as a statement, with the bounds check.\<close>

definition index :: "'a list \<Rightarrow> int \<Rightarrow> panic + 'a" where
  "index xs i = (if 0 \<le> i \<and> i < int (length xs) then Inr (xs ! nat i) else Inl IndexOutOfRange)"

definition assign :: "'a list \<Rightarrow> int \<Rightarrow> 'a \<Rightarrow> panic + 'a list" where
  "assign xs i v =
     (if 0 \<le> i \<and> i < int (length xs) then Inr (xs[nat i := v]) else Inl IndexOutOfRange)"

subsection \<open>The set and its point operations\<close>

record IntSet =
  words :: "uint list"

text \<open>The zero value of the struct: \<^verbatim>\<open>words\<close> is \<^verbatim>\<open>nil\<close>.\<close>

definition zero_IntSet :: IntSet where
  "zero_IntSet = \<lparr>words = []\<rparr>"

text \<open>
  \<^verbatim>\<open>word, bit := x/N, uint(x%N)\<close>, shared by \<^verbatim>\<open>Has\<close>, \<^verbatim>\<open>Add\<close> and \<^verbatim>\<open>Remove\<close>.
  The conversion \<^verbatim>\<open>uint(...)\<close> wraps a negative remainder around.
\<close>

definition word_of :: "int \<Rightarrow> int" where
  "word_of x = go_quot x (int N)"

definition bit_of :: "int \<Rightarrow> uint" where
  "bit_of x = word_of_int (go_rem x (int N))"

text \<open>\<^verbatim>\<open>1 << bit\<close> at type \<^verbatim>\<open>uint\<close>: a shift count of 64 or more gives 0.\<close>

definition shl1 :: "nat \<Rightarrow> uint" where
  "shl1 n = push_bit n 1"

text \<open>
  \<^verbatim>\<open>return word < len(s.words) && s.words[word]&(1<<bit) != 0\<close>: the right operand is
  evaluated only when the left one holds.
\<close>

definition Has :: "IntSet \<Rightarrow> int \<Rightarrow> panic + bool" where
  "Has s x =
     (let word = word_of x; bit = bit_of x in
      if word < int (length (words s)) then
        (case index (words s) word of
           Inl e \<Rightarrow> Inl e
         | Inr w \<Rightarrow> Inr (w AND shl1 (unat bit) \<noteq> 0))
      else Inr False)"

text \<open>The loop \<^verbatim>\<open>for word >= len(s.words) { s.words = append(s.words, 0) }\<close>.\<close>

function Add_grow :: "uint list \<Rightarrow> int \<Rightarrow> uint list" where
  "Add_grow ws word = (if word \<ge> int (length ws) then Add_grow (ws @ [0]) word else ws)"
  by pat_completeness auto
termination
  by (relation "measure (\<lambda>(ws, word). nat (word + 1 - int (length ws)))") auto

declare Add_grow.simps [simp del]

definition Add :: "IntSet \<Rightarrow> int \<Rightarrow> panic + IntSet" where
  "Add s x =
     (let word = word_of x; bit = bit_of x; ws = Add_grow (words s) word in
      case index ws word of
        Inl e \<Rightarrow> Inl e
      | Inr w \<Rightarrow>
          (case assign ws word (w OR shl1 (unat bit)) of
             Inl e \<Rightarrow> Inl e
           | Inr ws' \<Rightarrow> Inr (s\<lparr>words := ws'\<rparr>)))"

text \<open>\<^verbatim>\<open>AddAll\<close>: \<^verbatim>\<open>Add\<close> for each value in order; a panic ends the loop.\<close>

fun AddAll :: "IntSet \<Rightarrow> int list \<Rightarrow> panic + IntSet" where
  "AddAll s [] = Inr s"
| "AddAll s (x # vals) = (case Add s x of Inl e \<Rightarrow> Inl e | Inr s' \<Rightarrow> AddAll s' vals)"

text \<open>\<^verbatim>\<open>Remove\<close>: the early return, then \<^verbatim>\<open>s.words[word] &^= 1 << bit\<close>.\<close>

definition Remove :: "IntSet \<Rightarrow> int \<Rightarrow> panic + IntSet" where
  "Remove s x =
     (let word = word_of x; bit = bit_of x in
      if word \<ge> int (length (words s)) then Inr s
      else
        (case index (words s) word of
           Inl e \<Rightarrow> Inl e
         | Inr w \<Rightarrow>
             (case assign (words s) word (w AND NOT (shl1 (unat bit))) of
                Inl e \<Rightarrow> Inl e
              | Inr ws' \<Rightarrow> Inr (s\<lparr>words := ws'\<rparr>))))"

text \<open>\<^verbatim>\<open>Clear\<close>: \<^verbatim>\<open>s.words = nil\<close>.\<close>

definition Clear :: "IntSet \<Rightarrow> IntSet" where
  "Clear s = s\<lparr>words := []\<rparr>"

subsection \<open>Set algebra\<close>

text \<open>
  The four binary operations loop over \<^verbatim>\<open>t.words\<close>. Inside these loops every index is
  guarded by an explicit comparison with \<^verbatim>\<open>len(s.words)\<close>, so the reads and writes
  are in range by construction and the model uses \<open>!\<close> and list update directly.
  The operand \<open>t\<close> is a set of its own, as the specification's ownership rule has it;
  the receiver and the operand are not the same object.
\<close>

text \<open>
  \<^verbatim>\<open>for i, tword := range t.words { if i < len(s.words) { s.words[i] |= tword }
  else { s.words = append(s.words, tword) } }\<close>
\<close>

fun UnionWith_loop :: "uint list \<Rightarrow> nat \<Rightarrow> uint list \<Rightarrow> uint list" where
  "UnionWith_loop sw i [] = sw"
| "UnionWith_loop sw i (tword # rest) =
     UnionWith_loop (if i < length sw then sw[i := sw ! i OR tword] else sw @ [tword]) (Suc i) rest"

definition UnionWith :: "IntSet \<Rightarrow> IntSet \<Rightarrow> IntSet" where
  "UnionWith s t = s\<lparr>words := UnionWith_loop (words s) 0 (words t)\<rparr>"

text \<open>
  \<^verbatim>\<open>for i := range t.words { if i >= len(s.words) { break }; s.words[i] &= t.words[i] }\<close>
\<close>

function IntersectWith_loop :: "uint list \<Rightarrow> uint list \<Rightarrow> nat \<Rightarrow> uint list" where
  "IntersectWith_loop sw tw i =
     (if i < length tw then
        (if i \<ge> length sw then sw
         else IntersectWith_loop (sw[i := sw ! i AND tw ! i]) tw (Suc i))
      else sw)"
  by pat_completeness auto
termination
  by (relation "measure (\<lambda>(sw, tw, i). length tw - i)") auto

declare IntersectWith_loop.simps [simp del]

definition IntersectWith :: "IntSet \<Rightarrow> IntSet \<Rightarrow> IntSet" where
  "IntersectWith s t = s\<lparr>words := IntersectWith_loop (words s) (words t) 0\<rparr>"

text \<open>The same loop with \<^verbatim>\<open>s.words[i] &^= t.words[i]\<close>.\<close>

function DifferenceWith_loop :: "uint list \<Rightarrow> uint list \<Rightarrow> nat \<Rightarrow> uint list" where
  "DifferenceWith_loop sw tw i =
     (if i < length tw then
        (if i \<ge> length sw then sw
         else DifferenceWith_loop (sw[i := sw ! i AND NOT (tw ! i)]) tw (Suc i))
      else sw)"
  by pat_completeness auto
termination
  by (relation "measure (\<lambda>(sw, tw, i). length tw - i)") auto

declare DifferenceWith_loop.simps [simp del]

definition DifferenceWith :: "IntSet \<Rightarrow> IntSet \<Rightarrow> IntSet" where
  "DifferenceWith s t = s\<lparr>words := DifferenceWith_loop (words s) (words t) 0\<rparr>"



subsection \<open>Observers that walk all bits\<close>

text \<open>
  \<^verbatim>\<open>fmt.Fprintf(&buf, "%d", v)\<close> writes the decimal numeral of \<open>v\<close>: a minus sign for a
  negative number, then the digits, most significant first, with no leading zero.
\<close>

definition digit_char :: "nat \<Rightarrow> char" where
  "digit_char d = char_of (48 + d)"

function digits :: "nat \<Rightarrow> string" where
  "digits n = (if n < 10 then [digit_char n] else digits (n div 10) @ [digit_char (n mod 10)])"
  by pat_completeness auto
termination
  by (relation "measure (\<lambda>n. n)") auto

declare digits.simps [simp del]

definition fmt_d :: "int \<Rightarrow> string" where
  "fmt_d v = (if v < 0 then CHR ''-'' # digits (nat (- v)) else digits (nat v))"

text \<open>
  \<^verbatim>\<open>String\<close>. The \<^verbatim>\<open>bytes.Buffer\<close> is the string written so far. The inner loop is
  \<^verbatim>\<open>for j := 0; j < N; j++\<close>, with \<^verbatim>\<open>continue\<close> for a clear bit; \<open>write_number\<close> is
  the rest of its body:
  \<^verbatim>\<open>if buf.Len() > len("{") { buf.WriteByte(' ') }; fmt.Fprintf(&buf, "%d", i*N+j)\<close>.
\<close>

definition write_number :: "string \<Rightarrow> int \<Rightarrow> string" where
  "write_number buf v = (if length buf > length ''{'' then buf @ '' '' else buf) @ fmt_d v"

function String_bits :: "nat \<Rightarrow> uint \<Rightarrow> nat \<Rightarrow> string \<Rightarrow> string" where
  "String_bits i word j buf =
     (if j < N then
        (if word AND shl1 j = 0 then String_bits i word (Suc j) buf
         else String_bits i word (Suc j) (write_number buf (int (i * N + j))))
      else buf)"
  by pat_completeness auto
termination
  by (relation "measure (\<lambda>(i, word, j, buf). N - j)") auto

declare String_bits.simps [simp del]

fun String_words :: "nat \<Rightarrow> uint list \<Rightarrow> string \<Rightarrow> string" where
  "String_words i [] buf = buf"
| "String_words i (word # rest) buf =
     String_words (Suc i) rest (if word = 0 then buf else String_bits i word 0 buf)"

definition String :: "IntSet \<Rightarrow> string" where
  "String s = String_words 0 (words s) ''{'' @ ''}''"

text \<open>\<^verbatim>\<open>Len\<close>: the same two loops, counting.\<close>

function Len_bits :: "uint \<Rightarrow> nat \<Rightarrow> int \<Rightarrow> int" where
  "Len_bits word j n =
     (if j < N then Len_bits word (Suc j) (if word AND shl1 j \<noteq> 0 then n + 1 else n) else n)"
  by pat_completeness auto
termination
  by (relation "measure (\<lambda>(word, j, n). N - j)") auto

declare Len_bits.simps [simp del]

fun Len_words :: "uint list \<Rightarrow> int \<Rightarrow> int" where
  "Len_words [] n = n"
| "Len_words (word # rest) n = Len_words rest (if word = 0 then n else Len_bits word 0 n)"

definition Len :: "IntSet \<Rightarrow> int" where
  "Len s = Len_words (words s) 0"

text \<open>\<^verbatim>\<open>Elems\<close>: the two loops without the shortcut for a zero word, appending to \<^verbatim>\<open>res\<close>.\<close>

function Elems_bits :: "nat \<Rightarrow> uint \<Rightarrow> nat \<Rightarrow> int list \<Rightarrow> int list" where
  "Elems_bits i word j res =
     (if j < N then
        Elems_bits i word (Suc j) (if word AND shl1 j \<noteq> 0 then res @ [int (i * N + j)] else res)
      else res)"
  by pat_completeness auto
termination
  by (relation "measure (\<lambda>(i, word, j, res). N - j)") auto

declare Elems_bits.simps [simp del]

fun Elems_words :: "nat \<Rightarrow> uint list \<Rightarrow> int list \<Rightarrow> int list" where
  "Elems_words i [] res = res"
| "Elems_words i (word # rest) res = Elems_words (Suc i) rest (Elems_bits i word 0 res)"

definition Elems :: "IntSet \<Rightarrow> int list" where
  "Elems s = Elems_words 0 (words s) []"

text \<open>
  \<^verbatim>\<open>Copy\<close> on values: \<^verbatim>\<open>make([]uint, n)\<close> is \<open>n\<close> zero words, and \<^verbatim>\<open>copy(dst, src)\<close>
  overwrites the first \<open>min (len dst) (len src)\<close> elements of \<open>dst\<close>.
\<close>

definition copy_slice :: "'a list \<Rightarrow> 'a list \<Rightarrow> 'a list" where
  "copy_slice dst src = (let k = min (length dst) (length src) in take k src @ drop k dst)"

definition Copy :: "IntSet \<Rightarrow> IntSet" where
  "Copy s = \<lparr>words = copy_slice (replicate (length (words s)) 0) (words s)\<rparr>"

text \<open>The members the specification speaks of: the non-negative \<open>x\<close> for which \<^verbatim>\<open>Has\<close> is true.\<close>

definition members :: "IntSet \<Rightarrow> int set" where
  "members s = {x. 0 \<le> x \<and> Has s x = Inr True}"

text \<open>Numbers separated by single spaces, as the specification words the canonical form.\<close>

fun spaced :: "string list \<Rightarrow> string" where
  "spaced [] = []"
| "spaced [a] = a"
| "spaced (a # b # rest) = a @ '' '' @ spaced (b # rest)"

text \<open>
  The word at an index, with the implicit zero of the specification beyond the end of the
  sequence. It is used to state what the operations do; no operation is defined by it.
\<close>

definition word_at :: "uint list \<Rightarrow> nat \<Rightarrow> uint" where
  "word_at ws k = (if k < length ws then ws ! k else 0)"

section \<open>Slices as views of arrays in a heap\<close>

text \<open>
  \<^verbatim>\<open>Copy\<close> promises storage of its own, which a model on values cannot express. Here a
  slice is what it is in Go: a reference to a backing array with a length; its capacity
  is the length of the array (the package never reslices, so every slice starts at the
  beginning of its array). The heap is the list of the arrays allocated so far, and an
  address is a position in that list, so an allocation always returns a fresh address.
  The struct \<^verbatim>\<open>IntSet\<close> holds the slice header; two structs are distinct values, and
  only their backing arrays could be shared.
\<close>

type_synonym addr = nat

type_synonym heap = "uint list list"

datatype slice = NilSlice | Slice addr nat

fun len :: "slice \<Rightarrow> nat" where
  "len NilSlice = 0"
| "len (Slice a n) = n"

fun cap :: "heap \<Rightarrow> slice \<Rightarrow> nat" where
  "cap h NilSlice = 0"
| "cap h (Slice a n) = length (h ! a)"

fun elems :: "heap \<Rightarrow> slice \<Rightarrow> uint list" where
  "elems h NilSlice = []"
| "elems h (Slice a n) = take n (h ! a)"

text \<open>A slice of the heap \<open>h\<close>: its array is allocated and holds at least \<open>len\<close> elements.\<close>

fun valid :: "heap \<Rightarrow> slice \<Rightarrow> bool" where
  "valid h NilSlice = True"
| "valid h (Slice a n) = (a < length h \<and> n \<le> length (h ! a))"

text \<open>Two slices share backing storage when they refer to the same array.\<close>

fun shares :: "slice \<Rightarrow> slice \<Rightarrow> bool" where
  "shares (Slice a n) (Slice b m) = (a = b)"
| "shares _ _ = False"

text \<open>\<^verbatim>\<open>make([]uint, n)\<close>: a new array of \<open>n\<close> zero words.\<close>

definition make_slice :: "heap \<Rightarrow> nat \<Rightarrow> heap \<times> slice" where
  "make_slice h n = (h @ [replicate n 0], Slice (length h) n)"

text \<open>
  \<^verbatim>\<open>append(sl, v)\<close>: within the capacity the element is written into the array of \<open>sl\<close>;
  otherwise a larger array is allocated and the elements are moved. Go leaves the new
  capacity to the runtime: \<open>grow\<close> is the runtime's choice as a function of the old
  capacity, and the new array has room for the new element whatever \<open>grow\<close> says.
\<close>

definition append1 :: "(nat \<Rightarrow> nat) \<Rightarrow> heap \<Rightarrow> slice \<Rightarrow> uint \<Rightarrow> heap \<times> slice" where
  "append1 grow h sl v =
     (case sl of
        Slice a n \<Rightarrow>
          if n < length (h ! a) then (h[a := (h ! a)[n := v]], Slice a (Suc n))
          else
            (let c = max (Suc n) (grow (length (h ! a)))
             in (h @ [take n (h ! a) @ [v] @ replicate (c - Suc n) 0], Slice (length h) (Suc n)))
      | NilSlice \<Rightarrow>
          (let c = max 1 (grow 0)
           in (h @ [[v] @ replicate (c - 1) 0], Slice (length h) 1)))"

text \<open>\<^verbatim>\<open>copy(dst, src)\<close> writes the first \<open>min (len dst) (len src)\<close> elements into \<open>dst\<close>'s array.\<close>

definition copy_h :: "heap \<Rightarrow> slice \<Rightarrow> slice \<Rightarrow> heap" where
  "copy_h h dst src =
     (case dst of
        NilSlice \<Rightarrow> h
      | Slice a n \<Rightarrow>
          (let k = min n (len src) in h[a := take k (elems h src) @ drop k (h ! a)]))"

text \<open>\<^verbatim>\<open>sl[i] = v\<close> with the bounds check against the length of the slice.\<close>

definition store :: "heap \<Rightarrow> slice \<Rightarrow> int \<Rightarrow> uint \<Rightarrow> panic + heap" where
  "store h sl i v =
     (case sl of
        NilSlice \<Rightarrow> Inl IndexOutOfRange
      | Slice a n \<Rightarrow>
          if 0 \<le> i \<and> i < int n then Inr (h[a := (h ! a)[nat i := v]]) else Inl IndexOutOfRange)"

record HIntSet =
  hwords :: slice

text \<open>What the observers of the package read from a set in the heap.\<close>

definition view :: "heap \<Rightarrow> HIntSet \<Rightarrow> IntSet" where
  "view h s = \<lparr>words = elems h (hwords s)\<rparr>"

text \<open>\<^verbatim>\<open>Add\<close>, \<^verbatim>\<open>Remove\<close> and \<^verbatim>\<open>Copy\<close> once more, statement by statement, on the heap.\<close>

function Add_grow_h :: "(nat \<Rightarrow> nat) \<Rightarrow> heap \<Rightarrow> slice \<Rightarrow> int \<Rightarrow> heap \<times> slice" where
  "Add_grow_h grow h sl word =
     (if word \<ge> int (len sl) then
        (case append1 grow h sl 0 of (h', sl') \<Rightarrow> Add_grow_h grow h' sl' word)
      else (h, sl))"
  by pat_completeness auto
termination
  by (relation "measure (\<lambda>(grow, h, sl, word). nat (word + 1 - int (len sl)))")
    (auto simp: append1_def Let_def split: slice.splits if_splits)

declare Add_grow_h.simps [simp del]

definition Add_h :: "(nat \<Rightarrow> nat) \<Rightarrow> heap \<Rightarrow> HIntSet \<Rightarrow> int \<Rightarrow> panic + heap \<times> HIntSet" where
  "Add_h grow h s x =
     (let word = word_of x; bit = bit_of x in
      case Add_grow_h grow h (hwords s) word of
        (h1, sl) \<Rightarrow>
          (case index (elems h1 sl) word of
             Inl e \<Rightarrow> Inl e
           | Inr w \<Rightarrow>
               (case store h1 sl word (w OR shl1 (unat bit)) of
                  Inl e \<Rightarrow> Inl e
                | Inr h2 \<Rightarrow> Inr (h2, s\<lparr>hwords := sl\<rparr>))))"

definition Remove_h :: "heap \<Rightarrow> HIntSet \<Rightarrow> int \<Rightarrow> panic + heap \<times> HIntSet" where
  "Remove_h h s x =
     (let word = word_of x; bit = bit_of x in
      if word \<ge> int (len (hwords s)) then Inr (h, s)
      else
        (case index (elems h (hwords s)) word of
           Inl e \<Rightarrow> Inl e
         | Inr w \<Rightarrow>
             (case store h (hwords s) word (w AND NOT (shl1 (unat bit))) of
                Inl e \<Rightarrow> Inl e
              | Inr h' \<Rightarrow> Inr (h', s))))"

definition Copy_h :: "heap \<Rightarrow> HIntSet \<Rightarrow> heap \<times> HIntSet" where
  "Copy_h h s =
     (case make_slice h (len (hwords s)) of
        (h1, tw) \<Rightarrow> (copy_h h1 tw (hwords s), \<lparr>hwords = tw\<rparr>))"

text \<open>
  Two slices of one heap that are both valid and do not share their array: the situation
  of a set and its copy.
\<close>

definition apart :: "heap \<Rightarrow> slice \<Rightarrow> slice \<Rightarrow> bool" where
  "apart h sl other = (valid h sl \<and> valid h other \<and> \<not> shares sl other)"

section \<open>Properties\<close>

subsection \<open>Arithmetic of positions\<close>

lemma N_eq: "N = 64"
  by (simp add: N_def)

lemma go_quot_nonneg: "0 \<le> a \<Longrightarrow> 0 < b \<Longrightarrow> go_quot a b = a div b"
  by (cases "a = 0") (simp_all add: go_quot_def)

lemma go_rem_nonneg: "0 \<le> a \<Longrightarrow> 0 < b \<Longrightarrow> go_rem a b = a mod b"
  by (simp add: go_rem_def go_quot_nonneg minus_mult_div_eq_mod)

lemma word_of_nonneg: "0 \<le> x \<Longrightarrow> word_of x = x div 64"
  by (simp add: word_of_def N_eq go_quot_nonneg)

lemma bit_of_nonneg:
  assumes "0 \<le> x"
  shows "unat (bit_of x) = nat (x mod 64)"
proof -
  have "0 \<le> x mod 64" "x mod 64 < 64" by simp_all
  then have "x mod 64 mod 2 ^ 64 = x mod 64" by simp
  then show ?thesis
    using assms by (simp add: bit_of_def N_eq go_rem_nonneg unat_eq_nat_uint uint_word_of_int)
qed

lemma shl1_test: "(w AND shl1 n \<noteq> 0) = bit w n"
  by (simp add: shl1_def bit_iff_and_push_bit_not_eq_0)

lemma bit_shl1: "bit (shl1 n) m \<longleftrightarrow> m = n \<and> n < 64"
  by (auto simp: shl1_def bit_simps)

lemma Has_nonneg:
  assumes "0 \<le> x"
  shows "Has s x =
    Inr (nat (x div 64) < length (words s) \<and> bit (words s ! nat (x div 64)) (nat (x mod 64)))"
proof -
  have "0 \<le> x div 64" using assms by simp
  then show ?thesis
    using assms
    by (auto simp: Has_def index_def word_of_nonneg bit_of_nonneg shl1_test Let_def)
qed

lemma Add_grow_eq: "Add_grow ws word = ws @ replicate (nat (word + 1 - int (length ws))) 0"
proof (induction ws word rule: Add_grow.induct)
  case (1 ws word)
  show ?case
  proof (cases "word \<ge> int (length ws)")
    case True
    then have "nat (word + 1 - int (length ws)) = Suc (nat (word + 1 - int (length (ws @ [0::uint]))))"
      by simp
    with True "1" show ?thesis
      by (subst Add_grow.simps) (simp del: replicate_Suc add: replicate_Suc [symmetric])
  next
    case False
    then show ?thesis by (subst Add_grow.simps) simp
  qed
qed

lemma Add_nonneg:
  assumes "0 \<le> x"
  shows "Add s x =
    Inr (s\<lparr>words := (Add_grow (words s) (x div 64))
         [nat (x div 64) := Add_grow (words s) (x div 64) ! nat (x div 64) OR shl1 (nat (x mod 64))]\<rparr>)"
proof -
  have "0 \<le> x div 64" using assms by simp
  moreover have "x div 64 < int (length (Add_grow (words s) (x div 64)))"
    by (simp add: Add_grow_eq)
  ultimately show ?thesis
    using assms by (simp add: Add_def index_def assign_def word_of_nonneg bit_of_nonneg Let_def)
qed

lemma Remove_nonneg:
  assumes "0 \<le> x"
  shows "Remove s x =
    Inr (if x div 64 \<ge> int (length (words s)) then s
         else s\<lparr>words := (words s)[nat (x div 64) := words s ! nat (x div 64) AND NOT (shl1 (nat (x mod 64)))]\<rparr>)"
proof -
  have "0 \<le> x div 64" using assms by simp
  then show ?thesis
    using assms by (simp add: Remove_def index_def assign_def word_of_nonneg bit_of_nonneg Let_def)
qed

subsection \<open>Point operations, word by word\<close>

lemma Has_word_at:
  "0 \<le> x \<Longrightarrow> Has s x = Inr (bit (word_at (words s) (nat (x div 64))) (nat (x mod 64)))"
  by (simp add: Has_nonneg word_at_def)

lemma word_at_Add_grow: "word_at (Add_grow ws word) k = word_at ws k"
  by (simp add: Add_grow_eq word_at_def nth_append)

lemma length_Add_grow: "length (Add_grow ws word) = max (length ws) (nat (word + 1))"
  by (simp add: Add_grow_eq)

lemma word_at_update:
  "i < length ws \<Longrightarrow> word_at (ws[i := v]) k = (if k = i then v else word_at ws k)"
  by (simp add: word_at_def)

lemma Add_word_at:
  assumes "0 \<le> x"
  shows "\<exists>s'. Add s x = Inr s' \<and>
    length (words s') = max (length (words s)) (nat (x div 64 + 1)) \<and>
    (\<forall>k. word_at (words s') k =
       (if k = nat (x div 64) then word_at (words s) k OR shl1 (nat (x mod 64))
        else word_at (words s) k))"
proof -
  have lt: "nat (x div 64) < length (Add_grow (words s) (x div 64))"
    using assms by (simp add: length_Add_grow)
  then have "Add_grow (words s) (x div 64) ! nat (x div 64) = word_at (words s) (nat (x div 64))"
    using word_at_Add_grow [of "words s" "x div 64" "nat (x div 64)"] by (simp add: word_at_def)
  with lt show ?thesis
    using assms by (simp add: Add_nonneg word_at_update word_at_Add_grow length_Add_grow)
qed

lemma Remove_word_at:
  assumes "0 \<le> x"
  shows "\<exists>s'. Remove s x = Inr s' \<and>
    length (words s') = length (words s) \<and>
    (\<forall>k. word_at (words s') k =
       (if k = nat (x div 64) then word_at (words s) k AND NOT (shl1 (nat (x mod 64)))
        else word_at (words s) k))"
proof (cases "x div 64 \<ge> int (length (words s))")
  case True
  then have "\<not> nat (x div 64) < length (words s)" by linarith
  then have "word_at (words s) (nat (x div 64)) = 0" by (simp add: word_at_def)
  with True show ?thesis using assms by (simp add: Remove_nonneg)
next
  case False
  then have "nat (x div 64) < length (words s)" using assms by simp
  with False show ?thesis
    using assms by (simp add: Remove_nonneg word_at_update) (simp add: word_at_def)
qed

lemma position_eqI:
  fixes x y :: int
  assumes "x div 64 = y div 64" "x mod 64 = y mod 64"
  shows "x = y"
  using assms by (metis div_mult_mod_eq)

lemma position_neq:
  fixes x y :: int
  assumes "0 \<le> x" "0 \<le> y" "x \<noteq> y" "nat (y div 64) = nat (x div 64)"
  shows "nat (y mod 64) \<noteq> nat (x mod 64)"
proof
  assume "nat (y mod 64) = nat (x mod 64)"
  then have "y mod 64 = x mod 64" by simp
  moreover have "y div 64 = x div 64" using assms by (simp add: nat_eq_iff pos_imp_zdiv_nonneg_iff)
  ultimately show False using assms(3) position_eqI by metis
qed

subsection \<open>Add, Has and Remove\<close>

text \<open>
  Claim C2. For every set \<open>s\<close> and every non-negative \<open>x\<close>: \<^verbatim>\<open>s.Add(x)\<close> returns, and
  right after it \<^verbatim>\<open>s.Has(x)\<close> is true; a following \<^verbatim>\<open>s.Remove(x)\<close> returns, and
  after it \<^verbatim>\<open>s.Has(x)\<close> is false.
\<close>

theorem Add_then_Has_then_Remove:
  assumes "0 \<le> x"
  shows "\<exists>s1 s2. Add s x = Inr s1 \<and> Has s1 x = Inr True \<and>
                 Remove s1 x = Inr s2 \<and> Has s2 x = Inr False"
proof -
  have b: "nat (x mod 64) < 64" by simp
  obtain s1 where s1: "Add s x = Inr s1"
    "word_at (words s1) (nat (x div 64)) = word_at (words s) (nat (x div 64)) OR shl1 (nat (x mod 64))"
    using Add_word_at [OF assms, of s] by auto
  obtain s2 where s2: "Remove s1 x = Inr s2"
    "word_at (words s2) (nat (x div 64)) = word_at (words s1) (nat (x div 64)) AND NOT (shl1 (nat (x mod 64)))"
    using Remove_word_at [OF assms, of s1] by auto
  have "Has s1 x = Inr True"
    using b by (simp add: Has_word_at assms s1 bit_or_iff bit_shl1)
  moreover have "Has s2 x = Inr False"
    using b by (simp add: Has_word_at assms s2 bit_and_iff bit_not_iff bit_shl1)
  ultimately show ?thesis using s1(1) s2(1) by blast
qed

theorem Add_then_Has_then_Remove_witness:
  "(0::int) \<le> 144 \<and>
   (\<exists>s1 s2. Add \<lparr>words = [2]\<rparr> 144 = Inr s1 \<and> Has s1 144 = Inr True \<and>
            Remove s1 144 = Inr s2 \<and> Has s2 144 = Inr False)"
  using Add_then_Has_then_Remove [of 144 "\<lparr>words = [2]\<rparr>"] by simp

text \<open>
  Claim C10. Point mutations are frame-local: for distinct non-negative \<open>x\<close> and \<open>y\<close>,
  neither \<^verbatim>\<open>s.Add(x)\<close> nor \<^verbatim>\<open>s.Remove(x)\<close> changes what \<^verbatim>\<open>s.Has(y)\<close> returns.
\<close>

theorem point_mutation_frame:
  assumes "0 \<le> x" "0 \<le> y" "x \<noteq> y"
  shows "(\<exists>s'. Add s x = Inr s' \<and> Has s' y = Has s y) \<and>
         (\<exists>s'. Remove s x = Inr s' \<and> Has s' y = Has s y)"
proof
  obtain s' where s': "Add s x = Inr s'"
    "\<And>k. word_at (words s') k =
       (if k = nat (x div 64) then word_at (words s) k OR shl1 (nat (x mod 64))
        else word_at (words s) k)"
    using Add_word_at [OF assms(1), of s] by auto
  have "Has s' y = Has s y"
    using position_neq [OF assms]
    by (auto simp: Has_word_at assms s'(2) bit_or_iff bit_shl1)
  with s'(1) show "\<exists>s'. Add s x = Inr s' \<and> Has s' y = Has s y" by blast
next
  obtain s' where s': "Remove s x = Inr s'"
    "\<And>k. word_at (words s') k =
       (if k = nat (x div 64) then word_at (words s) k AND NOT (shl1 (nat (x mod 64)))
        else word_at (words s) k)"
    using Remove_word_at [OF assms(1), of s] by auto
  have "nat (y mod 64) < 64" by simp
  then have "Has s' y = Has s y"
    using position_neq [OF assms]
    by (auto simp: Has_word_at assms s'(2) bit_and_iff bit_not_iff bit_shl1)
  with s'(1) show "\<exists>s'. Remove s x = Inr s' \<and> Has s' y = Has s y" by blast
qed

theorem point_mutation_frame_witness:
  "(0::int) \<le> 9 \<and> (0::int) \<le> 10 \<and> (9::int) \<noteq> 10 \<and>
   (\<exists>s'. Add \<lparr>words = [1024]\<rparr> 9 = Inr s' \<and> Has s' 10 = Has \<lparr>words = [1024]\<rparr> 10) \<and>
   (\<exists>s'. Remove \<lparr>words = [1024]\<rparr> 9 = Inr s' \<and> Has s' 10 = Has \<lparr>words = [1024]\<rparr> 10)"
  using point_mutation_frame [of 9 10 "\<lparr>words = [1024]\<rparr>"] by simp

text \<open>
  Claim C8. For a non-negative \<open>x\<close> whose word index \<open>x / N\<close> is at or beyond the length
  of the word sequence, \<^verbatim>\<open>s.Remove(x)\<close> returns with the set unchanged; for a
  non-negative \<open>x\<close> \<^verbatim>\<open>Remove\<close> always returns; and whenever \<^verbatim>\<open>Remove\<close> returns, for any
  \<open>x\<close>, the word sequence is as long as before.
\<close>

theorem Remove_out_of_range:
  "(0 \<le> x \<and> word_of x \<ge> int (length (words s)) \<longrightarrow> Remove s x = Inr s) \<and>
   (0 \<le> x \<longrightarrow> (\<exists>s'. Remove s x = Inr s')) \<and>
   (\<forall>s'. Remove s x = Inr s' \<longrightarrow> length (words s') = length (words s))"
proof (intro conjI allI impI)
  assume "0 \<le> x \<and> word_of x \<ge> int (length (words s))"
  then show "Remove s x = Inr s" by (simp add: Remove_def Let_def)
next
  assume "0 \<le> x"
  then show "\<exists>s'. Remove s x = Inr s'" using Remove_word_at by blast
next
  fix s' assume "Remove s x = Inr s'"
  then show "length (words s') = length (words s)"
    by (auto simp: Remove_def Let_def index_def assign_def split: if_splits sum.splits)
qed

theorem Remove_out_of_range_witness:
  "(0::int) \<le> 200 \<and> word_of 200 \<ge> int (length (words \<lparr>words = [1]\<rparr>)) \<and>
   Remove \<lparr>words = [1]\<rparr> 200 = Inr \<lparr>words = [1]\<rparr> \<and>
   (\<exists>s'. Remove \<lparr>words = [1]\<rparr> 200 = Inr s' \<and> length (words s') = 1)"
proof -
  have h: "(0::int) \<le> 200 \<and> word_of 200 \<ge> int (length (words \<lparr>words = [1]\<rparr>))"
    by (simp add: word_of_nonneg)
  with Remove_out_of_range [of 200 "\<lparr>words = [1]\<rparr>"] show ?thesis by simp
qed

subsection \<open>Union and symmetric difference\<close>

lemma UnionWith_loop_word_at:
  "i \<le> length sw \<Longrightarrow>
   word_at (UnionWith_loop sw i tw) k =
     (if k < i then word_at sw k else word_at sw k OR word_at tw (k - i))"
proof (induction tw arbitrary: sw i)
  case Nil
  then show ?case by (simp add: word_at_def)
next
  case (Cons tword rest)
  let ?sw' = "if i < length sw then sw[i := sw ! i OR tword] else sw @ [tword]"
  have le: "Suc i \<le> length ?sw'" using Cons.prems by simp
  have upd: "word_at ?sw' k = (if k = i then word_at sw k OR tword else word_at sw k)"
    using Cons.prems by (auto simp: word_at_def nth_append)
  have tl: "word_at (tword # rest) (k - i) = word_at rest (k - Suc i)" if "i < k"
  proof -
    from that have "k - i = Suc (k - Suc i)" by simp
    then show ?thesis by (simp add: word_at_def)
  qed
  have hd: "word_at (tword # rest) 0 = tword" by (simp add: word_at_def)
  show ?case
  proof (cases "k < i")
    case True
    then show ?thesis using Cons.IH [OF le] upd by simp
  next
    case False
    show ?thesis
    proof (cases "k = i")
      case True
      then show ?thesis using Cons.IH [OF le] upd hd by simp
    next
      case False
      with \<open>\<not> k < i\<close> have "i < k" by simp
      then show ?thesis using Cons.IH [OF le] upd tl by simp
    qed
  qed
qed


lemma UnionWith_word_at:
  "word_at (words (UnionWith s t)) k = word_at (words s) k OR word_at (words t) k"
  by (simp add: UnionWith_def UnionWith_loop_word_at)


lemma copy_slice_fresh: "copy_slice (replicate (length ws) z) ws = ws"
  by (simp add: copy_slice_def)

lemma Copy_words: "words (Copy s) = words s"
  by (simp add: Copy_def copy_slice_fresh)

text \<open>
  Claim C4. \<^verbatim>\<open>UnionWith\<close> is commutative in membership: for sets \<open>A\<close> and \<open>B\<close> and every
  non-negative \<open>x\<close>, \<^verbatim>\<open>Has(x)\<close> gives the same on \<^verbatim>\<open>A.Copy()\<close> after \<^verbatim>\<open>UnionWith(B)\<close> as
  on \<^verbatim>\<open>B.Copy()\<close> after \<^verbatim>\<open>UnionWith(A)\<close>.
\<close>

theorem UnionWith_commutes:
  assumes "0 \<le> x"
  shows "Has (UnionWith (Copy A) B) x = Has (UnionWith (Copy B) A) x"
  using assms by (simp add: Has_word_at UnionWith_word_at Copy_words bit_or_iff disj_commute)

theorem UnionWith_commutes_witness:
  "(0::int) \<le> 42 \<and>
   Has (UnionWith (Copy \<lparr>words = [514, 0, 65536]\<rparr>) \<lparr>words = [4398046511616]\<rparr>) 42 =
   Has (UnionWith (Copy \<lparr>words = [4398046511616]\<rparr>) \<lparr>words = [514, 0, 65536]\<rparr>) 42"
  using UnionWith_commutes [of 42 "\<lparr>words = [514, 0, 65536]\<rparr>" "\<lparr>words = [4398046511616]\<rparr>"]
  by simp



subsection \<open>Intersection\<close>

text \<open>
  Claim C1 asks that after \<^verbatim>\<open>s.IntersectWith(t)\<close> every word of \<open>s\<close> at an index at or
  beyond the length of \<open>t\<close>'s word sequence reads as zero. The loop of the source leaves
  at the first such index (\<^verbatim>\<open>break\<close>) and clears nothing: with \<open>s = {1, 64}\<close> and
  \<open>t = {1}\<close> the result still contains 64, which \<open>t\<close> does not contain, and the
  intersection of \<open>{1, 9, 144}\<close> with \<open>{9, 42}\<close> prints as \<^verbatim>\<open>{9 144}\<close>.
\<close>

theorem IntersectWith_retains_receiver_tail:
  "IntersectWith \<lparr>words = [2, 1]\<rparr> \<lparr>words = [2]\<rparr> = \<lparr>words = [2, 1]\<rparr> \<and>
   Has \<lparr>words = [2]\<rparr> 64 = Inr False \<and>
   Has (IntersectWith \<lparr>words = [2, 1]\<rparr> \<lparr>words = [2]\<rparr>) 64 = Inr True \<and>
   String (IntersectWith (Copy \<lparr>words = [514, 0, 65536]\<rparr>) \<lparr>words = [4398046511616]\<rparr>)
     = ''{9 144}''"
proof -
  have "String (IntersectWith (Copy \<lparr>words = [514, 0, 65536]\<rparr>) \<lparr>words = [4398046511616]\<rparr>)
      = ''{9 144}''"
    by code_simp
  then show ?thesis
    by (simp add: IntersectWith_def IntersectWith_loop.simps Has_nonneg)
qed

subsection \<open>The loops over all bits\<close>

lemma shl1_clear: "(w AND shl1 n = 0) = (\<not> bit w n)"
  using shl1_test [of w n] by blast

lemma Elems_bits_eq:
  "Elems_bits i word j res = res @ map (\<lambda>b. int (i * 64 + b)) (filter (bit word) [j..<64])"
proof (induction i word j res rule: Elems_bits.induct)
  case (1 i word j res)
  show ?case
  proof (cases "j < 64")
    case True
    then have "[j..<64] = j # [Suc j..<64]" by (simp add: upt_conv_Cons)
    with True "1" show ?thesis
      by (subst Elems_bits.simps) (simp add: N_eq shl1_test)
  next
    case False
    then show ?thesis by (subst Elems_bits.simps) (simp add: N_eq)
  qed
qed

lemma Len_bits_eq: "Len_bits word j n = n + int (length (filter (bit word) [j..<64]))"
proof (induction word j n rule: Len_bits.induct)
  case (1 word j n)
  show ?case
  proof (cases "j < 64")
    case True
    then have "[j..<64] = j # [Suc j..<64]" by (simp add: upt_conv_Cons)
    with True "1" show ?thesis
      by (subst Len_bits.simps) (simp add: N_eq shl1_test)
  next
    case False
    then show ?thesis by (subst Len_bits.simps) (simp add: N_eq)
  qed
qed

lemma String_bits_eq:
  "String_bits i word j buf =
     foldl write_number buf (map (\<lambda>b. int (i * 64 + b)) (filter (bit word) [j..<64]))"
proof (induction i word j buf rule: String_bits.induct)
  case (1 i word j buf)
  show ?case
  proof (cases "j < 64")
    case True
    then have "[j..<64] = j # [Suc j..<64]" by (simp add: upt_conv_Cons)
    with True "1" show ?thesis
      by (subst String_bits.simps) (simp add: N_eq shl1_clear)
  next
    case False
    then show ?thesis by (subst String_bits.simps) (simp add: N_eq)
  qed
qed

lemma filter_bit_zero: "filter (bit (0::uint)) xs = []"
  by (induction xs) simp_all

lemma Elems_words_res: "Elems_words i ws res = res @ Elems_words i ws []"
proof (induction ws arbitrary: i res)
  case Nil
  then show ?case by simp
next
  case (Cons w rest)
  have "Elems_words i (w # rest) res = Elems_words (Suc i) rest (Elems_bits i w 0 res)" by simp
  also have "\<dots> = Elems_bits i w 0 res @ Elems_words (Suc i) rest []" by (rule Cons.IH)
  also have "\<dots> = res @ Elems_bits i w 0 [] @ Elems_words (Suc i) rest []"
    by (simp add: Elems_bits_eq)
  also have "Elems_bits i w 0 [] @ Elems_words (Suc i) rest [] = Elems_words i (w # rest) []"
    using Cons.IH [of "Suc i" "Elems_bits i w 0 []"] by simp
  finally show ?case .
qed

lemma Len_words_Elems: "Len_words ws n = n + int (length (Elems_words i ws []))"
proof (induction ws arbitrary: i n)
  case Nil
  then show ?case by simp
next
  case (Cons w rest)
  have e: "length (Elems_words i (w # rest) []) =
      length (filter (bit w) [0..<64]) + length (Elems_words (Suc i) rest [])"
    using Elems_words_res [of "Suc i" rest "Elems_bits i w 0 []"] by (simp add: Elems_bits_eq)
  show ?case
  proof (cases "w = 0")
    case True
    then show ?thesis using Cons.IH [of n "Suc i"] e by (simp add: filter_bit_zero)
  next
    case False
    then show ?thesis
      using Cons.IH [of "Len_bits w 0 n" "Suc i"] e by (simp add: Len_bits_eq)
  qed
qed

lemma String_words_Elems:
  "String_words i ws buf = foldl write_number buf (Elems_words i ws [])"
proof (induction ws arbitrary: i buf)
  case Nil
  then show ?case by simp
next
  case (Cons w rest)
  have e: "Elems_words i (w # rest) [] =
      map (\<lambda>b. int (i * 64 + b)) (filter (bit w) [0..<64]) @ Elems_words (Suc i) rest []"
    using Elems_words_res [of "Suc i" rest "Elems_bits i w 0 []"] by (simp add: Elems_bits_eq)
  show ?case
  proof (cases "w = 0")
    case True
    then show ?thesis using Cons.IH [of "Suc i" buf] e by (simp add: filter_bit_zero)
  next
    case False
    then show ?thesis
      using Cons.IH [of "Suc i" "String_bits i w 0 buf"] e by (simp add: String_bits_eq)
  qed
qed

lemma Len_Elems: "Len s = int (length (Elems s))"
  by (simp add: Len_def Elems_def Len_words_Elems [of _ _ 0])

lemma String_Elems: "String s = foldl write_number ''{'' (Elems s) @ ''}''"
  by (simp add: String_def Elems_def String_words_Elems)

lemma digits_nonempty: "digits n \<noteq> []"
  by (subst digits.simps) simp

lemma fmt_d_nonempty: "fmt_d v \<noteq> []"
  by (simp add: fmt_d_def digits_nonempty)

lemma write_number_later:
  "1 < length buf \<Longrightarrow>
   foldl write_number buf vs = buf @ concat (map (\<lambda>v. '' '' @ fmt_d v) vs)"
proof (induction vs arbitrary: buf)
  case Nil
  then show ?case by simp
next
  case (Cons v vs)
  have "1 < length (write_number buf v)" using Cons.prems by (auto simp: write_number_def)
  from Cons.IH [OF this] show ?case
    using Cons.prems by (simp add: write_number_def fmt_d_nonempty)
qed

lemma spaced_Cons: "spaced (a # rest) = a @ concat (map (\<lambda>b. '' '' @ b) rest)"
  by (induction rest arbitrary: a) simp_all

lemma write_number_spaced:
  "foldl write_number ''{'' vs = ''{'' @ spaced (map fmt_d vs)"
proof (cases vs)
  case Nil
  then show ?thesis by simp
next
  case (Cons v rest)
  have "1 < length (write_number ''{'' v)"
    using fmt_d_nonempty [of v] by (cases "fmt_d v") (simp_all add: write_number_def)
  from write_number_later [OF this, of rest] show ?thesis
    using Cons by (simp add: write_number_def spaced_Cons map_map comp_def)
qed

lemma String_spaced: "String s = ''{'' @ spaced (map fmt_d (Elems s)) @ ''}''"
  by (simp add: String_Elems write_number_spaced)

subsection \<open>The elements in ascending order\<close>

lemma block_upt: "[i * 64..<Suc i * 64] = map (\<lambda>b. i * 64 + b) [0..<64]"
proof -
  have "map (\<lambda>b. b + i * 64) [0..<64] = [i * 64..<64 + i * 64]" by (rule map_add_upt)
  then show ?thesis by (simp add: add.commute)
qed

lemma Elems_words_filter:
  "Elems_words i ws [] =
     map int (filter (\<lambda>v. bit (ws ! (v div 64 - i)) (v mod 64)) [i * 64..<(i + length ws) * 64])"
proof (induction ws arbitrary: i)
  case Nil
  then show ?case by simp
next
  case (Cons w rest)
  let ?P = "\<lambda>v. bit ((w # rest) ! (v div 64 - i)) (v mod 64)"
  have split: "[i * 64..<(i + length (w # rest)) * 64] =
      [i * 64..<Suc i * 64] @ [Suc i * 64..<(Suc i + length rest) * 64]"
    using upt_add_eq_append [of "i * 64" "Suc i * 64" "length rest * 64"]
    by (simp add: algebra_simps)
  have first: "filter ?P [i * 64..<Suc i * 64] = map (\<lambda>b. i * 64 + b) (filter (bit w) [0..<64])"
    unfolding block_upt filter_map
    by (rule arg_cong [where f = "map (\<lambda>b. i * 64 + b)"], rule filter_cong) (auto simp: comp_def)
  have second: "filter ?P [Suc i * 64..<(Suc i + length rest) * 64] =
      filter (\<lambda>v. bit (rest ! (v div 64 - Suc i)) (v mod 64)) [Suc i * 64..<(Suc i + length rest) * 64]"
  proof (rule filter_cong [OF refl])
    fix v assume "v \<in> set [Suc i * 64..<(Suc i + length rest) * 64]"
    then have "Suc i \<le> v div 64" by (simp add: less_eq_div_iff_mult_less_eq)
    then have "v div 64 - i = Suc (v div 64 - Suc i)" by simp
    then show "?P v = bit (rest ! (v div 64 - Suc i)) (v mod 64)" by simp
  qed
  have "Elems_words i (w # rest) [] =
      map (\<lambda>b. int (i * 64 + b)) (filter (bit w) [0..<64]) @ Elems_words (Suc i) rest []"
    using Elems_words_res [of "Suc i" rest "Elems_bits i w 0 []"] by (simp add: Elems_bits_eq)
  also have "\<dots> = map int (filter ?P [i * 64..<Suc i * 64]) @
      map int (filter ?P [Suc i * 64..<(Suc i + length rest) * 64])"
    unfolding first second Cons.IH by (simp add: comp_def)
  also have "\<dots> = map int (filter ?P [i * 64..<(i + length (w # rest)) * 64])"
    unfolding split by simp
  finally show ?case .
qed

lemma Elems_filter:
  "Elems s = map int (filter (\<lambda>v. bit (words s ! (v div 64)) (v mod 64)) [0..<length (words s) * 64])"
  using Elems_words_filter [of 0 "words s"] by (simp add: Elems_def)

lemma Elems_strict_sorted: "sorted_wrt (<) (Elems s)"
  unfolding Elems_filter by (simp add: sorted_wrt_map sorted_wrt_filter)

lemma set_Elems: "set (Elems s) = members s"
proof (rule set_eqI)
  fix x :: int
  show "x \<in> set (Elems s) \<longleftrightarrow> x \<in> members s"
  proof
    assume "x \<in> set (Elems s)"
    then obtain v where v: "x = int v" "v < length (words s) * 64"
      "bit (words s ! (v div 64)) (v mod 64)"
      unfolding Elems_filter by auto
    have "nat (int v div 64) = v div 64" "nat (int v mod 64) = v mod 64"
      by (simp_all add: nat_div_distrib nat_mod_distrib)
    moreover have "v div 64 < length (words s)" using v(2) by (simp add: div_less_iff_less_mult)
    ultimately show "x \<in> members s" using v by (simp add: members_def Has_nonneg)
  next
    assume "x \<in> members s"
    then have "0 \<le> x" "Has s x = Inr True" by (simp_all add: members_def)
    then have x: "nat (x div 64) < length (words s)"
      "bit (words s ! nat (x div 64)) (nat (x mod 64))"
      by (simp_all add: Has_nonneg)
    from \<open>0 \<le> x\<close> obtain v where v: "x = int v" by (rule nonneg_int_cases)
    have d: "nat (x div 64) = v div 64" "nat (x mod 64) = v mod 64"
      unfolding v by (simp_all add: nat_div_distrib nat_mod_distrib)
    have "v < length (words s) * 64"
      using x(1) div_less_iff_less_mult [of 64 v "length (words s)"] by (simp add: d)
    then have "v \<in> set (filter (\<lambda>v. bit (words s ! (v div 64)) (v mod 64)) [0..<length (words s) * 64])"
      using x(2) by (simp add: d)
    then show "x \<in> set (Elems s)" unfolding Elems_filter v by (simp only: set_map) (rule imageI)
  qed
qed

lemma Elems_sorted_list: "sorted_list_of_set (members s) = Elems s"
proof -
  have "sorted (Elems s)" "distinct (Elems s)"
    using Elems_strict_sorted [of s] by (simp_all add: strict_sorted_iff)
  then have "sorted_list_of_set (set (Elems s)) = Elems s"
    by (simp add: sorted_list_of_set.idem_if_sorted_distinct)
  then show ?thesis by (simp add: set_Elems)
qed

lemma Elems_words_zero: "\<forall>z \<in> set zs. z = 0 \<Longrightarrow> Elems_words i zs res = res"
  by (induction zs arbitrary: i res) (simp_all add: Elems_bits_eq filter_bit_zero)

lemma Elems_words_append:
  "Elems_words i (a @ b) res = Elems_words (i + length a) b (Elems_words i a res)"
  by (induction a arbitrary: i res) simp_all

subsection \<open>String, trailing zero words, Clear\<close>

text \<open>
  Claim C6. \<^verbatim>\<open>s.String()\<close> is an opening brace, the members of \<open>s\<close> as decimal numerals in
  ascending order separated by single spaces, and a closing brace; for a set without
  members, also one whose word sequence holds only zero words, it is \<^verbatim>\<open>{}\<close>.
\<close>

theorem String_canonical:
  "String s = ''{'' @ spaced (map fmt_d (sorted_list_of_set (members s))) @ ''}'' \<and>
   ((\<forall>w \<in> set (words s). w = 0) \<longrightarrow> String s = ''{}'')"
proof
  show "String s = ''{'' @ spaced (map fmt_d (sorted_list_of_set (members s))) @ ''}''"
    by (simp add: String_spaced Elems_sorted_list)
  show "(\<forall>w \<in> set (words s). w = 0) \<longrightarrow> String s = ''{}''"
  proof
    assume "\<forall>w \<in> set (words s). w = 0"
    then have "Elems s = []" by (simp add: Elems_def Elems_words_zero)
    then show "String s = ''{}''" by (simp add: String_spaced)
  qed
qed

theorem String_canonical_witness:
  "list_all (\<lambda>w. w = 0) (words \<lparr>words = [0, 0]\<rparr>) \<and> String \<lparr>words = [0, 0]\<rparr> = ''{}'' \<and>
   ''{'' @ spaced (map fmt_d (sorted_list_of_set (members \<lparr>words = [514, 0, 65536]\<rparr>))) @ ''}''
     = ''{1 9 144}''"
proof -
  have z: "\<forall>w \<in> set (words \<lparr>words = [0, 0]\<rparr>). w = 0" by simp
  have a: "String \<lparr>words = [0, 0]\<rparr> = ''{}''"
    using String_canonical [of "\<lparr>words = [0, 0]\<rparr>"] z by blast
  have b: "String \<lparr>words = [514, 0, 65536]\<rparr> =
      ''{'' @ spaced (map fmt_d (sorted_list_of_set (members \<lparr>words = [514, 0, 65536]\<rparr>))) @ ''}''"
    using String_canonical [of "\<lparr>words = [514, 0, 65536]\<rparr>"] by blast
  have c: "String \<lparr>words = [514, 0, 65536]\<rparr> = ''{1 9 144}''" by code_simp
  have d: "''{'' @ spaced (map fmt_d (sorted_list_of_set (members \<lparr>words = [514, 0, 65536]\<rparr>))) @ ''}''
      = ''{1 9 144}''"
    unfolding b [symmetric] by (rule c)
  have e: "list_all (\<lambda>w. w = 0) (words \<lparr>words = [0, 0]\<rparr>)" by simp
  from e a d show ?thesis by (intro conjI)
qed

text \<open>
  Claim C9. Observers do not see trailing zero words: when the word sequence of \<open>s2\<close> is
  that of \<open>s1\<close> followed by zero words, \<^verbatim>\<open>Has(x)\<close> for non-negative \<open>x\<close>, \<^verbatim>\<open>Len()\<close>,
  \<^verbatim>\<open>Elems()\<close> and \<^verbatim>\<open>String()\<close> agree on the two sets.
\<close>

theorem trailing_zero_words:
  assumes "words s2 = words s1 @ zs" and "\<forall>z \<in> set zs. z = 0" and "0 \<le> x"
  shows "Has s1 x = Has s2 x \<and> Len s1 = Len s2 \<and> Elems s1 = Elems s2 \<and> String s1 = String s2"
proof -
  have e: "Elems s1 = Elems s2"
    using assms(1,2) by (simp add: Elems_def Elems_words_append Elems_words_zero)
  have "word_at (words s2) k = word_at (words s1) k" for k
    using assms(1,2) by (auto simp: word_at_def nth_append)
  then have "Has s1 x = Has s2 x" using assms(3) by (simp add: Has_word_at)
  with e show ?thesis by (simp add: Len_Elems String_spaced)
qed

theorem trailing_zero_words_witness:
  "words \<lparr>words = [514, 0, 0]\<rparr> = words \<lparr>words = [514]\<rparr> @ [0, 0] \<and> (0::int) \<le> 9 \<and>
   Has \<lparr>words = [514]\<rparr> 9 = Has \<lparr>words = [514, 0, 0]\<rparr> 9 \<and>
   Len \<lparr>words = [514]\<rparr> = Len \<lparr>words = [514, 0, 0]\<rparr> \<and>
   Elems \<lparr>words = [514]\<rparr> = Elems \<lparr>words = [514, 0, 0]\<rparr> \<and>
   String \<lparr>words = [514]\<rparr> = String \<lparr>words = [514, 0, 0]\<rparr>"
  using trailing_zero_words [of "\<lparr>words = [514, 0, 0]\<rparr>" "\<lparr>words = [514]\<rparr>" "[0, 0]" 9]
  by simp

text \<open>
  Claim C5. After \<^verbatim>\<open>s.Clear()\<close> the set is the zero value of the struct, and so behaves
  as a fresh set does: \<^verbatim>\<open>Len()\<close> is 0, \<^verbatim>\<open>Elems()\<close> is empty, \<^verbatim>\<open>String()\<close> is \<^verbatim>\<open>{}\<close>,
  and \<^verbatim>\<open>Has(x)\<close> is false for every non-negative \<open>x\<close>.
\<close>

theorem Clear_is_empty:
  "Clear s = zero_IntSet \<and> Len (Clear s) = 0 \<and> Elems (Clear s) = [] \<and>
   String (Clear s) = ''{}'' \<and> (\<forall>x. 0 \<le> x \<longrightarrow> Has (Clear s) x = Inr False)"
  by (simp add: Clear_def zero_IntSet_def Len_Elems String_spaced Elems_def Has_nonneg)

theorem Clear_is_empty_witness:
  "(0::int) \<le> 9 \<and> Has (Clear \<lparr>words = [514]\<rparr>) 9 = Inr False \<and>
   Len (Clear \<lparr>words = [514]\<rparr>) = 0 \<and> Elems (Clear \<lparr>words = [514]\<rparr>) = [] \<and>
   String (Clear \<lparr>words = [514]\<rparr>) = ''{}''"
proof -
  have "(0::int) \<le> 9" by simp
  with Clear_is_empty [of "\<lparr>words = [514]\<rparr>"] show ?thesis by blast
qed

subsection \<open>Slices that do not share their array\<close>

lemma append1_apart:
  assumes "apart h sl other" and "append1 grow h sl v = (h', sl')"
  shows "apart h' sl' other \<and> elems h' other = elems h other \<and>
         elems h' sl' = elems h sl @ [v] \<and> len sl' = Suc (len sl)"
proof (cases sl)
  case NilSlice
  with assms show ?thesis
    by (cases other) (auto simp: apart_def append1_def Let_def nth_append)
next
  case (Slice a n)
  with assms have a: "a < length h" "n \<le> length (h ! a)" by (simp_all add: apart_def)
  show ?thesis
  proof (cases "n < length (h ! a)")
    case True
    with assms Slice a show ?thesis
      by (cases other) (auto simp: apart_def append1_def take_Suc_conv_app_nth)
  next
    case False
    with assms Slice a show ?thesis
      by (cases other) (auto simp: apart_def append1_def Let_def nth_append)
  qed
qed

lemma store_apart:
  assumes "apart h sl other" and "0 \<le> i" and "i < int (len sl)"
  shows "\<exists>h'. store h sl i v = Inr h' \<and> apart h' sl other \<and> elems h' other = elems h other \<and>
         assign (elems h sl) i v = Inr (elems h' sl)"
proof (cases sl)
  case NilSlice
  with assms show ?thesis by simp
next
  case (Slice a n)
  with assms show ?thesis
    by (cases other) (auto simp: apart_def store_def assign_def take_update_swap)
qed

lemma Add_grow_h_apart:
  assumes "apart h sl other" and "Add_grow_h grow h sl word = (h', sl')"
  shows "apart h' sl' other \<and> elems h' other = elems h other \<and>
         elems h' sl' = Add_grow (elems h sl) word \<and> len sl' = length (Add_grow (elems h sl) word)"
  using assms
proof (induction grow h sl word rule: Add_grow_h.induct)
  case (1 grow h sl word)
  have l: "length (elems h sl) = len sl"
    using "1.prems"(1) by (cases sl) (simp_all add: apart_def)
  show ?case
  proof (cases "word \<ge> int (len sl)")
    case True
    obtain h1 sl1 where a: "append1 grow h sl 0 = (h1, sl1)" by (cases "append1 grow h sl 0")
    from append1_apart [OF "1.prems"(1) a]
    have a1: "apart h1 sl1 other" "elems h1 other = elems h other"
      "elems h1 sl1 = elems h sl @ [0]" "len sl1 = Suc (len sl)" by simp_all
    have g: "Add_grow_h grow h1 sl1 word = (h', sl')"
      using "1.prems"(2) True a by (subst (asm) Add_grow_h.simps) simp
    have "Add_grow (elems h sl) word = Add_grow (elems h sl @ [0]) word"
      using True l by (subst Add_grow.simps) simp
    with "1.IH" [OF True a [symmetric] a1(1) g] a1 show ?thesis by simp
  next
    case False
    then have "(h', sl') = (h, sl)"
      using "1.prems"(2) by (subst (asm) Add_grow_h.simps) simp
    moreover have "Add_grow (elems h sl) word = elems h sl"
      using False l by (subst Add_grow.simps) simp
    ultimately show ?thesis using "1.prems"(1) l by simp
  qed
qed

subsection \<open>Add, Remove and Copy on the heap\<close>

text \<open>
  On a slice that is apart from another one, \<^verbatim>\<open>Add\<close> and \<^verbatim>\<open>Remove\<close> return for a
  non-negative \<open>x\<close>, leave the other slice's elements alone, stay apart from it, and do to
  the viewed set what the operations on values do.
\<close>

lemma Add_h_apart:
  assumes "apart h (hwords s) other" and "0 \<le> x"
  shows "\<exists>h2 s'. Add_h grow h s x = Inr (h2, s') \<and> apart h2 (hwords s') other \<and>
           elems h2 other = elems h other \<and> Add (view h s) x = Inr (view h2 s')"
proof -
  let ?word = "x div 64"
  obtain h1 sl1 where g: "Add_grow_h grow h (hwords s) ?word = (h1, sl1)"
    by (cases "Add_grow_h grow h (hwords s) ?word")
  from Add_grow_h_apart [OF assms(1) g]
  have g1: "apart h1 sl1 other" "elems h1 other = elems h other"
    "elems h1 sl1 = Add_grow (elems h (hwords s)) ?word"
    "len sl1 = length (Add_grow (elems h (hwords s)) ?word)" by simp_all
  have w: "0 \<le> ?word" "?word < int (len sl1)"
    using assms(2) g1(4) by (simp_all add: length_Add_grow)
  then have i: "index (elems h1 sl1) ?word = Inr (elems h1 sl1 ! nat ?word)"
    using g1(3,4) by (simp add: index_def)
  let ?v = "elems h1 sl1 ! nat ?word OR shl1 (nat (x mod 64))"
  from store_apart [OF g1(1) w, of ?v]
  obtain h2 where h2: "store h1 sl1 ?word ?v = Inr h2" "apart h2 sl1 other"
    "elems h2 other = elems h1 other" "assign (elems h1 sl1) ?word ?v = Inr (elems h2 sl1)"
    by blast
  have "Add_h grow h s x = Inr (h2, s\<lparr>hwords := sl1\<rparr>)"
    using assms(2) g i h2(1) by (simp add: Add_h_def word_of_nonneg bit_of_nonneg)
  moreover have "Add (view h s) x = Inr (view h2 (s\<lparr>hwords := sl1\<rparr>))"
    using assms(2) i h2(4) g1(3)
    by (simp add: Add_def view_def word_of_nonneg bit_of_nonneg Let_def)
  ultimately show ?thesis using h2(2,3) g1(2) by simp
qed

lemma Remove_h_apart:
  assumes "apart h (hwords s) other" and "0 \<le> x"
  shows "\<exists>h2 s'. Remove_h h s x = Inr (h2, s') \<and> apart h2 (hwords s') other \<and>
           elems h2 other = elems h other \<and> Remove (view h s) x = Inr (view h2 s')"
proof -
  let ?word = "x div 64"
  have l: "length (elems h (hwords s)) = len (hwords s)"
    using assms(1) by (cases "hwords s") (simp_all add: apart_def)
  show ?thesis
  proof (cases "?word \<ge> int (len (hwords s))")
    case True
    then show ?thesis
      using assms l by (simp add: Remove_h_def Remove_def view_def word_of_nonneg Let_def)
  next
    case False
    then have w: "0 \<le> ?word" "?word < int (len (hwords s))" using assms(2) by simp_all
    then have i: "index (elems h (hwords s)) ?word = Inr (elems h (hwords s) ! nat ?word)"
      using l by (simp add: index_def)
    let ?v = "elems h (hwords s) ! nat ?word AND NOT (shl1 (nat (x mod 64)))"
    from store_apart [OF assms(1) w, of ?v]
    obtain h2 where h2: "store h (hwords s) ?word ?v = Inr h2" "apart h2 (hwords s) other"
      "elems h2 other = elems h other"
      "assign (elems h (hwords s)) ?word ?v = Inr (elems h2 (hwords s))"
      by blast
    have "Remove_h h s x = Inr (h2, s)"
      using assms(2) False i h2(1) by (simp add: Remove_h_def word_of_nonneg bit_of_nonneg)
    moreover have "Remove (view h s) x = Inr (view h2 s)"
      using assms(2) False i h2(4) l
      by (simp add: Remove_def view_def word_of_nonneg bit_of_nonneg Let_def)
    ultimately show ?thesis using h2(2,3) by simp
  qed
qed

lemma Copy_h_eq:
  assumes "valid h (hwords s)"
  shows "Copy_h h s = (h @ [elems h (hwords s)], \<lparr>hwords = Slice (length h) (len (hwords s))\<rparr>)"
proof (cases "hwords s")
  case NilSlice
  then show ?thesis by (simp add: Copy_h_def make_slice_def copy_h_def)
next
  case (Slice a n)
  with assms show ?thesis
    by (simp add: Copy_h_def make_slice_def copy_h_def nth_append min_def)
qed

lemma apart_sym: "apart h a b \<Longrightarrow> apart h b a"
  by (cases a; cases b) (auto simp: apart_def)

text \<open>
  Claim C7. \<^verbatim>\<open>s.Copy()\<close> returns a set with the same word sequence, hence the same
  membership, as \<open>s\<close>, in an array of its own; \<open>s\<close> itself is unchanged. Afterwards an
  \<^verbatim>\<open>Add\<close> or a \<^verbatim>\<open>Remove\<close> of a non-negative \<open>x\<close> on the copy returns, acts on the copy as
  the operation on values does, and leaves the word sequence of the original, and with it
  everything \<^verbatim>\<open>Has\<close>, \<^verbatim>\<open>Len\<close>, \<^verbatim>\<open>Elems\<close> and \<^verbatim>\<open>String\<close> read, as it was; and the same
  with the two sets exchanged. This holds whatever capacity the runtime gives a grown
  slice.
\<close>

theorem Copy_independent:
  assumes "valid h (hwords s)" and "Copy_h h s = (h1, t)" and "0 \<le> x"
  shows "view h1 t = view h s \<and> view h1 s = view h s \<and> \<not> shares (hwords t) (hwords s) \<and>
    (\<exists>h2 t'. Add_h grow h1 t x = Inr (h2, t') \<and> Add (view h1 t) x = Inr (view h2 t') \<and>
              view h2 s = view h s) \<and>
    (\<exists>h2 t'. Remove_h h1 t x = Inr (h2, t') \<and> Remove (view h1 t) x = Inr (view h2 t') \<and>
              view h2 s = view h s) \<and>
    (\<exists>h2 s'. Add_h grow h1 s x = Inr (h2, s') \<and> Add (view h1 s) x = Inr (view h2 s') \<and>
              view h2 t = view h1 t) \<and>
    (\<exists>h2 s'. Remove_h h1 s x = Inr (h2, s') \<and> Remove (view h1 s) x = Inr (view h2 s') \<and>
              view h2 t = view h1 t)"
proof -
  have c: "h1 = h @ [elems h (hwords s)]" "hwords t = Slice (length h) (len (hwords s))"
    using assms(1,2) by (auto simp: Copy_h_eq)
  have l: "length (elems h (hwords s)) = len (hwords s)"
    using assms(1) by (cases "hwords s") simp_all
  have s1: "elems h1 (hwords s) = elems h (hwords s)"
    using assms(1) c(1) by (cases "hwords s") (simp_all add: nth_append)
  have t1: "elems h1 (hwords t) = elems h (hwords s)"
    using c l by simp
  have ap: "apart h1 (hwords t) (hwords s)"
    using assms(1) c l by (cases "hwords s") (auto simp: apart_def nth_append)
  have vs: "view h1 s = view h s" and vt: "view h1 t = view h s"
    using s1 t1 by (simp_all add: view_def)
  have ns: "\<not> shares (hwords t) (hwords s)" using ap by (simp add: apart_def)
  have a1: "\<exists>h2 t'. Add_h grow h1 t x = Inr (h2, t') \<and> Add (view h1 t) x = Inr (view h2 t') \<and>
              view h2 s = view h s"
    using Add_h_apart [OF ap assms(3), of grow] s1 by (auto simp: view_def)
  have r1: "\<exists>h2 t'. Remove_h h1 t x = Inr (h2, t') \<and> Remove (view h1 t) x = Inr (view h2 t') \<and>
              view h2 s = view h s"
    using Remove_h_apart [OF ap assms(3)] s1 by (auto simp: view_def)
  have a2: "\<exists>h2 s'. Add_h grow h1 s x = Inr (h2, s') \<and> Add (view h1 s) x = Inr (view h2 s') \<and>
              view h2 t = view h1 t"
    using Add_h_apart [OF apart_sym [OF ap] assms(3), of grow] by (auto simp: view_def)
  have r2: "\<exists>h2 s'. Remove_h h1 s x = Inr (h2, s') \<and> Remove (view h1 s) x = Inr (view h2 s') \<and>
              view h2 t = view h1 t"
    using Remove_h_apart [OF apart_sym [OF ap] assms(3)] by (auto simp: view_def)
  from vt vs ns a1 r1 a2 r2 show ?thesis by (intro conjI)
qed

theorem Copy_independent_witness:
  "valid [[514, 0, 0]] (hwords \<lparr>hwords = Slice 0 1\<rparr>) \<and>
   Copy_h [[514, 0, 0]] \<lparr>hwords = Slice 0 1\<rparr> = ([[514, 0, 0], [514]], \<lparr>hwords = Slice 1 1\<rparr>) \<and>
   (0::int) \<le> 70 \<and>
   view [[514, 0, 0], [514]] \<lparr>hwords = Slice 1 1\<rparr> = view [[514, 0, 0]] \<lparr>hwords = Slice 0 1\<rparr> \<and>
   \<not> shares (hwords \<lparr>hwords = Slice 1 1\<rparr>) (hwords \<lparr>hwords = Slice 0 1\<rparr>) \<and>
   Add_h (\<lambda>c. 2 * c) [[514, 0, 0], [514]] \<lparr>hwords = Slice 1 1\<rparr> 70 =
     Inr ([[514, 0, 0], [514], [514, 64]], \<lparr>hwords = Slice 2 2\<rparr>) \<and>
   Add_h (\<lambda>c. 2 * c) [[514, 0, 0], [514]] \<lparr>hwords = Slice 0 1\<rparr> 70 =
     Inr ([[514, 64, 0], [514]], \<lparr>hwords = Slice 0 2\<rparr>) \<and>
   (\<exists>h2 t'. Add_h (\<lambda>c. 2 * c) [[514, 0, 0], [514]] \<lparr>hwords = Slice 1 1\<rparr> 70 = Inr (h2, t') \<and>
      view h2 \<lparr>hwords = Slice 0 1\<rparr> = view [[514, 0, 0]] \<lparr>hwords = Slice 0 1\<rparr>) \<and>
   (\<exists>h2 s'. Add_h (\<lambda>c. 2 * c) [[514, 0, 0], [514]] \<lparr>hwords = Slice 0 1\<rparr> 70 = Inr (h2, s') \<and>
      view h2 \<lparr>hwords = Slice 1 1\<rparr> = view [[514, 0, 0], [514]] \<lparr>hwords = Slice 1 1\<rparr>)"
proof -
  have v: "valid [[514, 0, 0]] (hwords \<lparr>hwords = Slice 0 1\<rparr>)" by simp
  have c: "Copy_h [[514, 0, 0]] \<lparr>hwords = Slice 0 1\<rparr> =
      ([[514, 0, 0], [514]], \<lparr>hwords = Slice 1 1\<rparr>)"
    by (simp add: Copy_h_def make_slice_def copy_h_def)
  have x: "(0::int) \<le> 70" by simp
  have a1: "Add_h (\<lambda>c. 2 * c) [[514, 0, 0], [514]] \<lparr>hwords = Slice 1 1\<rparr> 70 =
     Inr ([[514, 0, 0], [514], [514, 64]], \<lparr>hwords = Slice 2 2\<rparr>)"
    by (simp add: Add_h_def word_of_nonneg bit_of_nonneg Add_grow_h.simps append1_def
        index_def store_def shl1_def)
  have a2: "Add_h (\<lambda>c. 2 * c) [[514, 0, 0], [514]] \<lparr>hwords = Slice 0 1\<rparr> 70 =
     Inr ([[514, 64, 0], [514]], \<lparr>hwords = Slice 0 2\<rparr>)"
    by (simp add: Add_h_def word_of_nonneg bit_of_nonneg Add_grow_h.simps append1_def
        index_def store_def shl1_def)
  from Copy_independent [OF v c x, of "\<lambda>c. 2 * c"]
  have "view [[514, 0, 0], [514]] \<lparr>hwords = Slice 1 1\<rparr> = view [[514, 0, 0]] \<lparr>hwords = Slice 0 1\<rparr>"
    "\<not> shares (hwords \<lparr>hwords = Slice 1 1\<rparr>) (hwords \<lparr>hwords = Slice 0 1\<rparr>)"
    "\<exists>h2 t'. Add_h (\<lambda>c. 2 * c) [[514, 0, 0], [514]] \<lparr>hwords = Slice 1 1\<rparr> 70 = Inr (h2, t') \<and>
      view h2 \<lparr>hwords = Slice 0 1\<rparr> = view [[514, 0, 0]] \<lparr>hwords = Slice 0 1\<rparr>"
    "\<exists>h2 s'. Add_h (\<lambda>c. 2 * c) [[514, 0, 0], [514]] \<lparr>hwords = Slice 0 1\<rparr> 70 = Inr (h2, s') \<and>
      view h2 \<lparr>hwords = Slice 1 1\<rparr> = view [[514, 0, 0], [514]] \<lparr>hwords = Slice 1 1\<rparr>"
    by blast+
  with v c x a1 a2 show ?thesis by (intro conjI)
qed

subsection \<open>Intersection and difference word by word, and a run of AddAll\<close>

lemma IntersectWith_loop_word_at:
  "length (IntersectWith_loop sw tw i) = length sw \<and>
   word_at (IntersectWith_loop sw tw i) k =
     (if i \<le> k \<and> k < length tw \<and> k < length sw then sw ! k AND tw ! k else word_at sw k)"
proof (induction sw tw i rule: IntersectWith_loop.induct)
  case (1 sw tw i)
  show ?case
  proof (cases "i < length tw \<and> i < length sw")
    case True
    let ?sw' = "sw[i := sw ! i AND tw ! i]"
    have e: "IntersectWith_loop sw tw i = IntersectWith_loop ?sw' tw (Suc i)"
      using True by (subst IntersectWith_loop.simps) simp
    have ih: "length (IntersectWith_loop ?sw' tw (Suc i)) = length ?sw'"
      "word_at (IntersectWith_loop ?sw' tw (Suc i)) k =
        (if Suc i \<le> k \<and> k < length tw \<and> k < length ?sw' then ?sw' ! k AND tw ! k
         else word_at ?sw' k)"
      using "1" True by simp_all
    show ?thesis
    proof (cases "k = i")
      case True
      with \<open>i < length tw \<and> i < length sw\<close> show ?thesis
        unfolding e ih by (simp add: word_at_def)
    next
      case False
      then show ?thesis unfolding e ih by (auto simp: word_at_def)
    qed
  next
    case False
    then show ?thesis
      by (subst (1 2) IntersectWith_loop.simps) (auto simp: word_at_def)
  qed
qed

lemma DifferenceWith_loop_word_at:
  "length (DifferenceWith_loop sw tw i) = length sw \<and>
   word_at (DifferenceWith_loop sw tw i) k =
     (if i \<le> k \<and> k < length tw \<and> k < length sw then sw ! k AND NOT (tw ! k) else word_at sw k)"
proof (induction sw tw i rule: DifferenceWith_loop.induct)
  case (1 sw tw i)
  show ?case
  proof (cases "i < length tw \<and> i < length sw")
    case True
    let ?sw' = "sw[i := sw ! i AND NOT (tw ! i)]"
    have e: "DifferenceWith_loop sw tw i = DifferenceWith_loop ?sw' tw (Suc i)"
      using True by (subst DifferenceWith_loop.simps) simp
    have ih: "length (DifferenceWith_loop ?sw' tw (Suc i)) = length ?sw'"
      "word_at (DifferenceWith_loop ?sw' tw (Suc i)) k =
        (if Suc i \<le> k \<and> k < length tw \<and> k < length ?sw' then ?sw' ! k AND NOT (tw ! k)
         else word_at ?sw' k)"
      using "1" True by simp_all
    show ?thesis
    proof (cases "k = i")
      case True
      with \<open>i < length tw \<and> i < length sw\<close> show ?thesis
        unfolding e ih by (simp add: word_at_def)
    next
      case False
      then show ?thesis unfolding e ih by (auto simp: word_at_def)
    qed
  next
    case False
    then show ?thesis
      by (subst (1 2) DifferenceWith_loop.simps) (auto simp: word_at_def)
  qed
qed

lemma IntersectWith_word_at:
  "word_at (words (IntersectWith s t)) k =
     (if k < length (words t) then word_at (words s) k AND word_at (words t) k
      else word_at (words s) k)"
  by (simp add: IntersectWith_def IntersectWith_loop_word_at) (simp add: word_at_def)

lemma IntersectWith_keeps_tail:
  "length (words t) \<le> k \<Longrightarrow> word_at (words (IntersectWith s t)) k = word_at (words s) k"
  by (simp add: IntersectWith_word_at)

lemma DifferenceWith_word_at:
  "word_at (words (DifferenceWith s t)) k = word_at (words s) k AND NOT (word_at (words t) k)"
  by (simp add: DifferenceWith_def DifferenceWith_loop_word_at) (simp add: word_at_def)

lemma DifferenceWith_Has:
  "0 \<le> x \<Longrightarrow>
   Has (DifferenceWith s t) x = Inr (Has s x = Inr True \<and> Has t x \<noteq> Inr True)"
  by (auto simp: Has_word_at DifferenceWith_word_at bit_and_iff bit_not_iff)

lemma UnionWith_Has:
  "0 \<le> x \<Longrightarrow> Has (UnionWith s t) x = Inr (Has s x = Inr True \<or> Has t x = Inr True)"
  by (auto simp: Has_word_at UnionWith_word_at bit_or_iff)

lemma scenario_AddAll:
  "AddAll zero_IntSet [1, 9, 144] = Inr \<lparr>words = [514, 0, 65536]\<rparr>"
  by code_simp

end
